theory Spec2Isabelle
  imports Complex_Main "HOL-Library.Sublist"
begin

section \<open>Segments (src/omicron/segments.py)\<close>

subsection \<open>Data model\<close>

text \<open>
  A glue \<open>segment\<close> is a pair of endpoints; a \<open>segmentlist\<close> is a list of segments.
  The endpoints are Python numbers: the integers of the job configuration, or the floats
  that arise from \<open>overlap / 2.\<close>.  Every float that the tiling computes from integer
  inputs is a half-integer, which binary floating point represents exactly (below
  \<open>2^52\<close> in magnitude), and on such values the float operations \<open>+\<close>, \<open>-\<close>,
  \<open>min\<close> and \<open><\<close> agree with the rational ones.  The model therefore takes the
  float endpoints as rationals (\<^typ>\<open>rat\<close>) and the integer ones as \<^typ>\<open>int\<close>.
\<close>

type_synonym 'a segment = "'a \<times> 'a"

text \<open>
  The constructor \<open>segment(a, b)\<close> of glue orders its two arguments, so that a segment
  always has its lower endpoint first.
\<close>

definition Segment :: "'a::linorder \<Rightarrow> 'a \<Rightarrow> 'a segment" where
  "Segment a b = (if a \<le> b then (a, b) else (b, a))"

text \<open>\<open>abs(seg)\<close>: the length of a segment.\<close>

definition seg_abs :: "rat segment \<Rightarrow> rat" where
  "seg_abs s = snd s - fst s"

text \<open>Python's \<open>int(x)\<close> on a float: truncation toward zero.\<close>

definition py_int :: "rat \<Rightarrow> int" where
  "py_int x = (if 0 \<le> x then \<lfloor>x\<rfloor> else \<lceil>x\<rceil>)"

subsection \<open>The tiling loops of \<open>omicron_output_segments\<close>\<close>

text \<open>
  The inner loop
  \<^verbatim>\<open>
  while t < e:
      seg = Segment(t, min(t + fseg, fend))
      out.append(seg)
      t += fseg
  \<close>
  on the state \<open>(t, out)\<close>.  It runs forever when \<open>fseg \<le> 0\<close>, so its result is
  optional: \<open>None\<close> stands for not returning.
\<close>

partial_function (option) inner_loop ::
  "int \<Rightarrow> rat \<Rightarrow> rat \<Rightarrow> rat \<Rightarrow> rat segment list \<Rightarrow> (rat \<times> rat segment list) option" where
  "inner_loop fseg fend e t out =
     (if t < e
      then inner_loop fseg fend e (t + of_int fseg)
             (out @ [Segment t (min (t + of_int fseg) fend)])
      else Some (t, out))"

text \<open>
  The outer loop
  \<^verbatim>\<open>
  while t < fend:
      e = min(t + fdur, fend)
      seg = Segment(t, e)
      if fseg < abs(seg) < fdur:
          <inner loop>
      else:
          out.append(seg)
      t = e
  return out
  \<close>
  The cursor left by the inner loop is overwritten by \<open>t = e\<close>.
\<close>

partial_function (option) outer_loop ::
  "int \<Rightarrow> int \<Rightarrow> rat \<Rightarrow> rat \<Rightarrow> rat segment list \<Rightarrow> rat segment list option" where
  "outer_loop fdur fseg fend t out =
     (if t < fend then
        (let e = min (t + of_int fdur) fend; seg = Segment t e in
         if of_int fseg < seg_abs seg \<and> seg_abs seg < of_int fdur
         then (case inner_loop fseg fend e t out of
                 None \<Rightarrow> None
               | Some (t', out') \<Rightarrow> outer_loop fdur fseg fend e out')
         else outer_loop fdur fseg fend e (out @ [seg]))
      else Some out)"

declare inner_loop.simps [code]
declare outer_loop.simps [code]

text \<open>
  The decorator \<open>integer_segments\<close>: the wrapped function's result is rebuilt with
  both endpoints of every segment passed through \<open>int\<close>, through the segment
  constructor, in the same order.  A wrapped function that does not return makes the
  decorated one not return.
\<close>

definition integer_segments ::
  "('x \<Rightarrow> rat segment list option) \<Rightarrow> 'x \<Rightarrow> int segment list option" where
  "integer_segments f args =
     (case f args of
        None \<Rightarrow> None
      | Some segs \<Rightarrow> Some (map (\<lambda>s. Segment (py_int (fst s)) (py_int (snd s))) segs))"

text \<open>The undecorated body of \<open>omicron_output_segments\<close>.\<close>

definition omicron_output_segments_body ::
  "int \<times> int \<times> int \<times> int \<times> int \<Rightarrow> rat segment list option" where
  "omicron_output_segments_body = (\<lambda>(start, end', chunk, segment, overlap).
     let padding = of_int overlap / 2;
         fstart = of_int start + padding;
         fend = of_int end' - padding;
         fdur = chunk - overlap;
         fseg = segment - overlap
     in outer_loop fdur fseg fend fstart [])"

text \<open>The function as the module exports it, decorated with \<open>integer_segments\<close>.\<close>

definition omicron_output_segments ::
  "int \<Rightarrow> int \<Rightarrow> int \<Rightarrow> int \<Rightarrow> int \<Rightarrow> int segment list option" where
  "omicron_output_segments start end' chunk segment overlap =
     integer_segments omicron_output_segments_body (start, end', chunk, segment, overlap)"

subsection \<open>Properties of segment lists\<close>

text \<open>The points of the time axis that a half-open segment covers.\<close>

definition span :: "rat segment \<Rightarrow> rat set" where
  "span s = {fst s ..< snd s}"

definition as_rat :: "int segment \<Rightarrow> rat segment" where
  "as_rat s = (of_int (fst s), of_int (snd s))"

definition sorted_by_start :: "rat segment list \<Rightarrow> bool" where
  "sorted_by_start xs = sorted (map fst xs)"

fun pairwise_disjoint :: "rat segment list \<Rightarrow> bool" where
  "pairwise_disjoint [] = True"
| "pairwise_disjoint (s # xs) = ((\<forall>r \<in> set xs. span s \<inter> span r = {}) \<and> pairwise_disjoint xs)"

definition covered :: "rat segment list \<Rightarrow> rat set" where
  "covered xs = (\<Union>s \<in> set xs. span s)"

text \<open>
  \<open>tiles a xs b\<close>: the segments of \<open>xs\<close> follow each other from \<open>a\<close> to \<open>b\<close>, each
  one starting where the one before it ends.
\<close>

fun tiles :: "'a::linorder \<Rightarrow> 'a segment list \<Rightarrow> 'a \<Rightarrow> bool" where
  "tiles a [] b = (a = b)"
| "tiles a (s # xs) b = (fst s = a \<and> a \<le> snd s \<and> tiles (snd s) xs b)"

subsection \<open>\<open>write_segments\<close>\<close>

text \<open>Decimal digits, as \<open>'%d'\<close> prints them.\<close>

definition digit_char :: "nat \<Rightarrow> char" where
  "digit_char d = char_of (48 + d)"

fun str_nat :: "nat \<Rightarrow> string" where
  "str_nat n = (if n < 10 then [digit_char n] else str_nat (n div 10) @ [digit_char (n mod 10)])"

declare str_nat.simps [simp del]

text \<open>
  \<open>'%d' % x\<close>: the decimal numeral of \<open>int(x)\<close>.  On a float the conversion \<open>%d\<close>
  truncates toward zero; on an integer \<open>int\<close> changes nothing.
\<close>

definition format_d :: "rat \<Rightarrow> string" where
  "format_d x = (let i = py_int x in
     if i < 0 then CHR ''-'' # str_nat (nat (- i)) else str_nat (nat i))"

text \<open>\<open>'%d %d' % seg\<close>.\<close>

definition format_seg :: "rat segment \<Rightarrow> string" where
  "format_seg seg = format_d (fst seg) @ '' '' @ format_d (snd seg)"

definition newline :: char where
  "newline = CHR 0x0A"

text \<open>\<open>print(s, file=fp)\<close> on the content written to \<open>fp\<close> so far.\<close>

definition print_to :: "string \<Rightarrow> string \<Rightarrow> string" where
  "print_to fp s = fp @ s @ [newline]"

text \<open>
  \<open>write_segments(segmentlist, outfile)\<close>: the file is opened with mode \<open>'w'\<close>, so it
  starts empty; the result is the content of \<open>outfile\<close> when the function returns.
\<close>

definition write_segments :: "rat segment list \<Rightarrow> string" where
  "write_segments segmentlist = foldl (\<lambda>fp seg. print_to fp (format_seg seg)) [] segmentlist"

text \<open>
  Reading a written file back: its lines, the two columns of a line, and the integer
  that a decimal numeral denotes.
\<close>

definition digit_val :: "char \<Rightarrow> nat" where
  "digit_val c = of_char c - 48"

definition val_nat :: "string \<Rightarrow> nat" where
  "val_nat ds = foldl (\<lambda>a c. 10 * a + digit_val c) 0 ds"

definition val_int :: "string \<Rightarrow> int" where
  "val_int s = (case s of
       [] \<Rightarrow> 0
     | c # ds \<Rightarrow> if c = CHR ''-'' then - int (val_nat ds) else int (val_nat s))"

definition line_values :: "string \<Rightarrow> int segment" where
  "line_values l =
     (val_int (takeWhile (\<lambda>c. c \<noteq> CHR '' '') l),
      val_int (drop 1 (dropWhile (\<lambda>c. c \<noteq> CHR '' '') l)))"

function file_lines :: "string \<Rightarrow> string list" where
  "file_lines [] = []"
| "file_lines (c # cs) =
     takeWhile (\<lambda>c. c \<noteq> newline) (c # cs)
       # file_lines (drop 1 (dropWhile (\<lambda>c. c \<noteq> newline) (c # cs)))"
  by pat_completeness auto
termination
  by (relation "measure length")
     (auto simp: less_Suc_eq_le intro: order_trans[OF diff_le_self length_dropWhile_le])

definition written_values :: "string \<Rightarrow> int segment list" where
  "written_values content = map line_values (file_lines content)"

text \<open>The characters \<open>0\<close> to \<open>9\<close>.\<close>

definition is_digit :: "char \<Rightarrow> bool" where
  "is_digit c = (48 \<le> (of_char c :: nat) \<and> (of_char c :: nat) \<le> 57)"

section \<open>Batch-job management (omicron/condor.py)\<close>

text \<open>
  The module \<open>omicron/condor.py\<close> is not among the source files; only its tests
  (\<open>omicron/tests/test_condor.py\<close>) are.  Its operations are modelled from the spec,
  and agree with the tests.
\<close>

datatype condor_error =
  ParseError string
| NotFoundError string
| AmbiguousResultError string

subsection \<open>Job queries\<close>

text \<open>
  Modelled from the spec: the JobRecord of the data model, "a mapping from attribute name
  to value", and a set of equality filters, the keyword arguments of \<open>find_jobs\<close> and
  \<open>find_job\<close>, as a list of attribute names with the values required.
\<close>

type_synonym 'v job_record = "string \<rightharpoonup> 'v"

type_synonym 'v filters = "(string \<times> 'v) list"

text \<open>
  Modelled from the spec: a job "satisfies all given equality filters" (the matching
  semantics of \<open>find_jobs\<close> in \<open>condor.py\<close>, which is missing).
\<close>

definition job_matches :: "'v filters \<Rightarrow> 'v job_record \<Rightarrow> bool" where
  "job_matches filters job = list_all (\<lambda>(k, v). job k = Some v) filters"

text \<open>
  Modelled from the spec: \<open>find_jobs\<close> of \<open>condor.py\<close>, which is missing.  It "returns
  every scheduler job whose attributes satisfy all given equality filters; an empty filter
  set returns all known jobs".  The scheduler's job table \<open>schedd\<close> is re-fetched on every
  query, so it is an argument.
\<close>

definition find_jobs :: "'v job_record list \<Rightarrow> 'v filters \<Rightarrow> 'v job_record list" where
  "find_jobs schedd filters = filter (job_matches filters) schedd"

text \<open>
  Modelled from the spec: \<open>find_job\<close> of \<open>condor.py\<close>, which is missing.  "Same matching
  semantics, but requires exactly one match; fails with NotFoundError (No jobs found...) on
  zero matches, AmbiguousResultError (Multiple jobs found...) on more than one."  The spec
  gives the start of each message only; the rest is \<open>detail filters\<close>.
\<close>

definition find_job ::
  "('v filters \<Rightarrow> string) \<Rightarrow> 'v job_record list \<Rightarrow> 'v filters \<Rightarrow> condor_error + 'v job_record" where
  "find_job detail schedd filters =
     (case find_jobs schedd filters of
        [] \<Rightarrow> Inl (NotFoundError (''No jobs found'' @ detail filters))
      | [job] \<Rightarrow> Inr job
      | _ # _ # _ \<Rightarrow> Inl (AmbiguousResultError (''Multiple jobs found'' @ detail filters)))"

subsection \<open>Submission\<close>

text \<open>
  Modelled from the spec: the text between the two numbers of the pattern
  \<open><N> job(s) submitted to cluster <ClusterID>\<close> that \<open>submit_dag\<close> of \<open>condor.py\<close>
  (missing) looks for.
\<close>

definition submitted_marker :: string where
  "submitted_marker = '' job(s) submitted to cluster ''"

text \<open>
  Modelled from the spec: the pattern \<open><N> job(s) submitted to cluster <ClusterID>\<close>
  matched at the start of a text, both numbers being non-empty runs of decimal digits
  taken as long as possible; the result is the digits of the ClusterID.
\<close>

definition match_here :: "string \<Rightarrow> string option" where
  "match_here s =
     (let n = takeWhile is_digit s;
          r = dropWhile is_digit s;
          g = takeWhile is_digit (drop (length submitted_marker) r)
      in if n \<noteq> [] \<and> prefix submitted_marker r \<and> g \<noteq> [] then Some g else None)"

text \<open>
  Modelled from the spec: "scans the output for the pattern": the first position of the
  output, from the left, at which the pattern matches.
\<close>

fun search_submitted :: "string \<Rightarrow> string option" where
  "search_submitted [] = None"
| "search_submitted (c # cs) =
     (case match_here (c # cs) of
        Some g \<Rightarrow> Some g
      | None \<Rightarrow> search_submitted cs)"

text \<open>
  Modelled from the spec: \<open>submit_dag\<close> of \<open>condor.py\<close>, which is missing.  It "invokes the
  external batch-submission executable with \<open>extra_args\<close> followed by \<open>dag_path\<close>; captures
  its complete standard-output text", scans it for the pattern and "returns ClusterID";
  it "fails with a ParseError (message prefixed Failed to extract DAG cluster ID) if the
  pattern is absent".  The executable is a function from its arguments to its output;
  the rest of the message is \<open>detail\<close> of the output.
\<close>

definition submit ::
  "(string list \<Rightarrow> string) \<Rightarrow> (string \<Rightarrow> string) \<Rightarrow> string \<Rightarrow> string list \<Rightarrow> condor_error + nat" where
  "submit executable detail dag_path extra_args =
     (let out = executable (extra_args @ [dag_path]) in
      case search_submitted out of
        None \<Rightarrow> Inl (ParseError (''Failed to extract DAG cluster ID'' @ detail out))
      | Some g \<Rightarrow> Inr (val_nat g))"

text \<open>The pattern occurs somewhere in a text.\<close>

definition has_submitted_pattern :: "string \<Rightarrow> bool" where
  "has_submitted_pattern out =
     (\<exists>pre n c post. out = pre @ n @ submitted_marker @ c @ post
        \<and> n \<noteq> [] \<and> list_all is_digit n \<and> c \<noteq> [] \<and> list_all is_digit c)"

subsection \<open>Patching a submission descriptor\<close>

definition dquote :: char where
  "dquote = CHR 0x22"

definition backslash :: char where
  "backslash = CHR 0x5C"

text \<open>
  Modelled from the spec: the SubmissionDescriptor, an "ordered sequence of directive
  lines" read from the generated file and written back as its complete content.  The
  lines of a text are the pieces between its newline characters, and the text is the
  lines joined by newlines.
\<close>

fun split_nl :: "string \<Rightarrow> string list" where
  "split_nl [] = [[]]"
| "split_nl (c # cs) =
     (if c = newline then [] # split_nl cs
      else (case split_nl cs of [] \<Rightarrow> [[c]] | l # ls \<Rightarrow> (c # l) # ls))"

fun join_nl :: "string list \<Rightarrow> string" where
  "join_nl [] = []"
| "join_nl [l] = l"
| "join_nl (l # l' # ls) = l @ newline # join_nl (l' # ls)"

text \<open>
  Modelled from the spec: the argument override of \<open>write_sub_file\<close> in \<open>condor.py\<close>
  (missing): "prepend it (with exactly one leading space) to the existing \<open>arguments\<close>
  directive's current value".  The value of the directive is the text after the opening
  quote, as in the descriptor of \<open>test_write_sub_file\<close>.
\<close>

definition arguments_prefix :: string where
  "arguments_prefix = ''arguments = '' @ [dquote]"

definition is_arguments :: "string \<Rightarrow> bool" where
  "is_arguments l = prefix arguments_prefix l"

definition patch_arguments :: "string \<Rightarrow> string list \<Rightarrow> string list" where
  "patch_arguments command ls =
     map (\<lambda>l. if is_arguments l
               then arguments_prefix @ '' '' @ command @ drop (length arguments_prefix) l
               else l) ls"

text \<open>
  Modelled from the spec: the \<open>Requirements\<close> directive, a "boolean expression
  optionally continued across lines with a trailing \<open>&& \\<close> marker": a line is
  continued on the next one when it ends with a backslash.
\<close>

definition requirements_prefix :: string where
  "requirements_prefix = ''Requirements = ''"

definition is_requirements :: "string \<Rightarrow> bool" where
  "is_requirements l = prefix requirements_prefix l"

definition continued :: "string \<Rightarrow> bool" where
  "continued l = (l \<noteq> [] \<and> last l = backslash)"

definition continuation_marker :: string where
  "continuation_marker = '' && '' @ [backslash]"

definition has_singularity_line :: string where
  "has_singularity_line = replicate (length requirements_prefix) (CHR '' '') @ ''HasSingularity''"

text \<open>
  Modelled from the spec: the container requirement on an existing \<open>Requirements\<close>
  directive, single-line or multi-line: "re-terminate the previously-last clause with the
  continuation marker and append a new final continuation line with \<open>HasSingularity\<close>,
  leaving every earlier clause verbatim"; the new line is "aligned under
  \<open>Requirements = \<close>".  The argument starts at the \<open>Requirements\<close> line.
\<close>

fun extend_requirements :: "string list \<Rightarrow> string list" where
  "extend_requirements [] = []"
| "extend_requirements (l # ls) =
     (if continued l \<and> ls \<noteq> [] then l # extend_requirements ls
      else (l @ continuation_marker) # has_singularity_line # ls)"

text \<open>
  Modelled from the spec: finding the \<open>Requirements\<close> directive; \<open>None\<close> when the
  descriptor has none.
\<close>

fun patch_requirements :: "string list \<Rightarrow> string list option" where
  "patch_requirements [] = None"
| "patch_requirements (l # ls) =
     (if is_requirements l then Some (extend_requirements (l # ls))
      else map_option ((#) l) (patch_requirements ls))"

text \<open>
  Modelled from the spec: the container requirement of \<open>write_sub_file\<close>: "insert
  \<open>+SingularityImage = <path>\<close> as the first directive" and "ensure the \<open>Requirements\<close>
  boolean expression includes a \<open>HasSingularity\<close> clause", which when absent is created
  as \<open>Requirements = HasSingularity\<close> (in \<open>test_write_sub_file\<close>, on the second line).
\<close>

definition singularity_prefix :: string where
  "singularity_prefix = ''+SingularityImage = ''"

definition is_singularity_image :: "string \<Rightarrow> bool" where
  "is_singularity_image l = prefix singularity_prefix l"

definition add_singularity :: "string \<Rightarrow> string list \<Rightarrow> string list" where
  "add_singularity image_path ls =
     (singularity_prefix @ image_path)
       # (case patch_requirements ls of
            None \<Rightarrow> (requirements_prefix @ ''HasSingularity'') # ls
          | Some ls' \<Rightarrow> ls')"

text \<open>
  Modelled from the spec: \<open>OmicronProcessJob.write_sub_file\<close> of \<open>condor.py\<close>, which is
  missing: "given a generated SubmissionDescriptor plus two optional runtime overrides, a
  command-argument string and a container-image path, rewrite it in place".  The argument
  \<open>sub\<close> is the generated content of the file, the result its content afterwards.
\<close>

definition write_sub_file :: "string option \<Rightarrow> string option \<Rightarrow> string \<Rightarrow> string" where
  "write_sub_file command singularity_image sub =
     (let ls = split_nl sub;
          ls1 = (case command of None \<Rightarrow> ls | Some c \<Rightarrow> patch_arguments c ls);
          ls2 = (case singularity_image of None \<Rightarrow> ls1 | Some i \<Rightarrow> add_singularity i ls1)
      in join_nl ls2)"

text \<open>
  The lines of a descriptor that belong to none of the targeted directives: not to the
  \<open>Requirements\<close> directive (its first line and the lines it is continued on), and
  neither an \<open>arguments\<close> nor a \<open>+SingularityImage\<close> line.  The flag tells whether the
  line before was a continued line of the \<open>Requirements\<close> directive.
\<close>

fun other_lines :: "bool \<Rightarrow> string list \<Rightarrow> string list" where
  "other_lines inreq [] = []"
| "other_lines inreq (l # ls) =
     (if inreq \<or> is_requirements l then other_lines (continued l) ls
      else if is_arguments l \<or> is_singularity_image l then other_lines False ls
      else l # other_lines False ls)"

text \<open>An override is a single line of text, and a command does not end in a backslash.\<close>

definition single_line :: "string \<Rightarrow> bool" where
  "single_line s = (newline \<notin> set s)"

definition well_formed_command :: "string \<Rightarrow> bool" where
  "well_formed_command c = (single_line c \<and> \<not> continued c)"

text \<open>The descriptors of \<open>test_write_sub_file\<close>.\<close>

definition sub_no_reqs :: string where
  "sub_no_reqs = [newline] @ ''universe = vanilla'' @ [newline]
     @ ''executable = /path/to/omicron'' @ [newline]
     @ ''arguments = '' @ [dquote] @ ''some command'' @ [dquote] @ [newline]"

definition sub_one_req :: string where
  "sub_one_req = sub_no_reqs @ [newline]
     @ ''Requirements = TARGET.UidDomain == '' @ [dquote] @ ''cs.wisc.edu'' @ [dquote] @ [newline]"

definition sub_multi_reqs :: string where
  "sub_multi_reqs = butlast sub_one_req @ '' && '' @ [backslash, newline]
     @ ''               TARGET.FileSystemDomain == '' @ [dquote] @ ''cs.wisc.edu'' @ [dquote]
     @ [newline]"

section \<open>Lemmas\<close>

subsection \<open>Truncation\<close>

lemma py_int_mono: "x \<le> y \<Longrightarrow> py_int x \<le> py_int y"
proof -
  assume xy: "x \<le> y"
  show ?thesis
  proof (cases "0 \<le> x")
    case True
    with xy show ?thesis by (simp add: py_int_def floor_mono)
  next
    case neg: False
    show ?thesis
    proof (cases "0 \<le> y")
      case True
      have "\<lceil>x\<rceil> \<le> 0" using neg by (simp add: ceiling_le_iff)
      moreover have "0 \<le> \<lfloor>y\<rfloor>" using True by simp
      ultimately have "\<lceil>x\<rceil> \<le> \<lfloor>y\<rfloor>" by linarith
      then show ?thesis using neg True by (simp add: py_int_def)
    next
      case False
      with neg xy show ?thesis by (simp add: py_int_def ceiling_mono)
    qed
  qed
qed

lemma py_int_of_int [simp]: "py_int (of_int n) = n"
  by (simp add: py_int_def)

lemma Segment_ordered [simp]: "a \<le> b \<Longrightarrow> Segment a b = (a, b)"
  by (simp add: Segment_def)

lemma Segment_py_int: "fst s \<le> snd s \<Longrightarrow>
  Segment (py_int (fst s)) (py_int (snd s)) = (py_int (fst s), py_int (snd s))"
  by (simp add: py_int_mono)

subsection \<open>Tilings\<close>

lemma tiles_append:
  "tiles a xs b \<Longrightarrow> tiles b ys c \<Longrightarrow> tiles a (xs @ ys) c"
  by (induction xs arbitrary: a) auto

lemma tiles_snoc:
  "tiles a xs b \<Longrightarrow> b \<le> c \<Longrightarrow> tiles a (xs @ [(b, c)]) c"
  by (rule tiles_append) auto

lemma tiles_le: "tiles a xs b \<Longrightarrow> a \<le> b"
  by (induction xs arbitrary: a) (auto intro: order_trans)

lemma tiles_bounds:
  "tiles a xs b \<Longrightarrow> s \<in> set xs \<Longrightarrow> a \<le> fst s \<and> fst s \<le> snd s \<and> snd s \<le> b"
proof (induction xs arbitrary: a)
  case Nil
  then show ?case by simp
next
  case (Cons x xs)
  from Cons.prems(1) have x: "fst x = a" "a \<le> snd x" "tiles (snd x) xs b" by simp_all
  show ?case
  proof (cases "s = x")
    case True
    with x tiles_le[OF x(3)] show ?thesis by simp
  next
    case False
    with Cons.prems(2) have "s \<in> set xs" by simp
    from Cons.IH[OF x(3) this] x(2) show ?thesis by (auto intro: order_trans)
  qed
qed

lemma tiles_map:
  assumes mono: "\<And>x y. x \<le> y \<Longrightarrow> g x \<le> g y"
  shows "tiles a xs b \<Longrightarrow> tiles (g a) (map (\<lambda>s. (g (fst s), g (snd s))) xs) (g b)"
  by (induction xs arbitrary: a) (auto intro: mono)

lemma tiles_sorted: "tiles a xs b \<Longrightarrow> sorted_by_start xs"
  unfolding sorted_by_start_def
proof (induction xs arbitrary: a)
  case Nil
  then show ?case by simp
next
  case (Cons x xs)
  from Cons.prems have x: "fst x = a" "a \<le> snd x" "tiles (snd x) xs b" by simp_all
  have "\<forall>s \<in> set xs. fst x \<le> fst s"
    using tiles_bounds[OF x(3)] x(1,2) by fastforce
  with Cons.IH[OF x(3)] show ?case by simp
qed

lemma span_disjoint_iff:
  "span r \<inter> span s = {} \<longleftrightarrow> min (snd r) (snd s) \<le> max (fst r) (fst s)"
proof
  assume d: "span r \<inter> span s = {}"
  show "min (snd r) (snd s) \<le> max (fst r) (fst s)"
  proof (rule ccontr)
    assume "\<not> min (snd r) (snd s) \<le> max (fst r) (fst s)"
    then have "max (fst r) (fst s) \<in> span r \<inter> span s" by (auto simp: span_def not_le)
    with d show False by simp
  qed
next
  assume "min (snd r) (snd s) \<le> max (fst r) (fst s)"
  then show "span r \<inter> span s = {}" by (auto simp: span_def)
qed

lemma tiles_disjoint: "tiles a xs b \<Longrightarrow> pairwise_disjoint xs"
proof (induction xs arbitrary: a)
  case Nil
  then show ?case by simp
next
  case (Cons x xs)
  from Cons.prems have x: "fst x = a" "a \<le> snd x" "tiles (snd x) xs b" by simp_all
  have "\<forall>r \<in> set xs. span x \<inter> span r = {}"
  proof
    fix r assume "r \<in> set xs"
    from tiles_bounds[OF x(3) this] have "snd x \<le> fst r" by simp
    then show "span x \<inter> span r = {}" by (simp add: span_disjoint_iff min_le_iff_disj le_max_iff_disj)
  qed
  with Cons.IH[OF x(3)] show ?case by simp
qed

lemma tiles_covered: "tiles a xs b \<Longrightarrow> covered xs = {a ..< b}"
proof (induction xs arbitrary: a)
  case Nil
  then show ?case by (simp add: covered_def)
next
  case (Cons x xs)
  from Cons.prems have x: "fst x = a" "a \<le> snd x" "tiles (snd x) xs b" by simp_all
  have "covered (x # xs) = span x \<union> covered xs" by (simp add: covered_def)
  also have "\<dots> = {a ..< snd x} \<union> {snd x ..< b}"
    using Cons.IH[OF x(3)] x(1) by (simp add: span_def)
  also have "\<dots> = {a ..< b}"
    using x(2) tiles_le[OF x(3)] by (rule ivl_disj_un_two)
  finally show ?case .
qed

subsection \<open>The loops return, and what they return\<close>

lemma inner_step:
  "t < e \<Longrightarrow> inner_loop fseg fend e t out =
     inner_loop fseg fend e (t + of_int fseg) (out @ [Segment t (min (t + of_int fseg) fend)])"
  by (subst inner_loop.simps) simp

lemma inner_stop: "\<not> t < e \<Longrightarrow> inner_loop fseg fend e t out = Some (t, out)"
  by (subst inner_loop.simps) simp

lemma outer_stop: "\<not> t < fend \<Longrightarrow> outer_loop fdur fseg fend t out = Some out"
  by (subst outer_loop.simps) simp

lemma outer_step_whole:
  "t < fend \<Longrightarrow> e = min (t + of_int fdur) fend \<Longrightarrow>
   \<not> (of_int fseg < seg_abs (Segment t e) \<and> seg_abs (Segment t e) < of_int fdur) \<Longrightarrow>
   outer_loop fdur fseg fend t out = outer_loop fdur fseg fend e (out @ [Segment t e])"
  by (subst outer_loop.simps) (auto simp: Let_def)

lemma outer_step_split:
  "t < fend \<Longrightarrow> e = min (t + of_int fdur) fend \<Longrightarrow>
   of_int fseg < seg_abs (Segment t e) \<Longrightarrow> seg_abs (Segment t e) < of_int fdur \<Longrightarrow>
   inner_loop fseg fend e t out = Some (t', out') \<Longrightarrow>
   outer_loop fdur fseg fend t out = outer_loop fdur fseg fend e out'"
  by (subst outer_loop.simps) (simp add: Let_def)

text \<open>The number of steps still to go drops with every step of length \<open>k\<close>.\<close>

lemma ceiling_step:
  fixes d :: rat and k :: int
  assumes "0 < k" "0 < d"
  shows "nat \<lceil>(d - of_int k) / of_int k\<rceil> < nat \<lceil>d / of_int k\<rceil>"
proof -
  have "(d - of_int k) / of_int k = d / of_int k - 1"
    using assms by (simp add: diff_divide_distrib)
  moreover have "0 < d / rat_of_int k" using assms by simp
  then have "0 < \<lceil>d / rat_of_int k\<rceil>" by (simp add: ceiling_less_iff)
  ultimately show ?thesis by simp
qed

lemma inner_loop_tiles:
  assumes "0 < fseg"
  shows "tiles A out (min t fend) \<Longrightarrow>
         \<exists>t' out'. inner_loop fseg fend fend t out = Some (t', out') \<and> tiles A out' fend"
proof (induction "nat \<lceil>(fend - t) / of_int fseg\<rceil>" arbitrary: t out rule: less_induct)
  case less
  show ?case
  proof (cases "t < fend")
    case False
    then have "min t fend = fend" by simp
    with less.prems False show ?thesis by (simp add: inner_stop)
  next
    case True
    let ?m = "min (t + of_int fseg) fend"
    have m: "nat \<lceil>(fend - (t + of_int fseg)) / of_int fseg\<rceil> < nat \<lceil>(fend - t) / of_int fseg\<rceil>"
      using ceiling_step[of fseg "fend - t"] assms True by (simp add: algebra_simps)
    have le: "t \<le> ?m" using assms True by simp
    then have seg: "Segment t ?m = (t, ?m)" by (simp add: Segment_def)
    from less.prems True have "tiles A out t" by simp
    then have "tiles A (out @ [Segment t ?m]) ?m"
      unfolding seg using le by (rule tiles_snoc)
    from less.hyps[OF m this] show ?thesis using True by (simp add: inner_step)
  qed
qed

lemma outer_loop_tiles:
  assumes "0 < fdur" "0 < fseg"
  shows "t \<le> fend \<Longrightarrow> tiles A out t \<Longrightarrow>
         \<exists>out'. outer_loop fdur fseg fend t out = Some out' \<and> tiles A out' fend"
proof (induction "nat \<lceil>(fend - t) / of_int fdur\<rceil>" arbitrary: t out rule: less_induct)
  case less
  show ?case
  proof (cases "t < fend")
    case False
    with less.prems show ?thesis by (simp add: outer_stop)
  next
    case True
    define e where "e = min (t + of_int fdur) fend"
    have te: "t < e" "e \<le> fend" using assms True by (simp_all add: e_def)
    have seg: "Segment t e = (t, e)" using te by (simp add: Segment_def)
    show ?thesis
    proof (cases "of_int fseg < seg_abs (Segment t e) \<and> seg_abs (Segment t e) < of_int fdur")
      case split: True
      then have "e - t < of_int fdur" by (simp add: seg seg_abs_def)
      then have ef: "e = fend" by (auto simp: e_def min_def split: if_splits)
      from less.prems True have "tiles A out (min t fend)" by simp
      from inner_loop_tiles[OF assms(2) this] obtain t' out'
        where i: "inner_loop fseg fend fend t out = Some (t', out')" and t: "tiles A out' fend"
        by blast
      have "outer_loop fdur fseg fend t out = outer_loop fdur fseg fend e out'"
        using split i by (intro outer_step_split[OF True e_def]) (simp_all add: ef)
      then show ?thesis using t by (simp add: ef outer_stop)
    next
      case whole: False
      have step: "outer_loop fdur fseg fend t out = outer_loop fdur fseg fend e (out @ [(t, e)])"
        using outer_step_whole[OF True e_def whole] by (simp add: seg)
      have tl: "tiles A (out @ [(t, e)]) e"
        using less.prems(2) te(1) by (intro tiles_snoc) simp_all
      have m: "nat \<lceil>(fend - e) / of_int fdur\<rceil> < nat \<lceil>(fend - t) / of_int fdur\<rceil>"
      proof (cases "e = fend")
        case True
        have "0 < (fend - t) / rat_of_int fdur" using assms \<open>t < fend\<close> by simp
        then have "0 < \<lceil>(fend - t) / rat_of_int fdur\<rceil>" by (simp add: ceiling_less_iff)
        then show ?thesis using True by simp
      next
        case False
        then have "e = t + of_int fdur" by (auto simp: e_def min_def split: if_splits)
        then show ?thesis
          using ceiling_step[of fdur "fend - t"] assms \<open>t < fend\<close> by (simp add: algebra_simps)
      qed
      from less.hyps[OF m te(2) tl] show ?thesis by (simp add: step)
    qed
  qed
qed

text \<open>
  Before the decorator: on a span longer than the overlap the body returns a tiling of
  \<open>[start + overlap/2, end - overlap/2)\<close>.
\<close>

lemma body_tiles:
  assumes "overlap < chunk" "overlap < segment" "overlap < end' - start"
  shows "\<exists>segs. omicron_output_segments_body (start, end', chunk, segment, overlap) = Some segs
           \<and> tiles (of_int start + of_int overlap / 2) segs (of_int end' - of_int overlap / 2)"
proof -
  have "rat_of_int overlap < rat_of_int (end' - start)"
    using assms(3) by (simp only: of_int_less_iff)
  then have le: "rat_of_int start + of_int overlap / 2 \<le> of_int end' - of_int overlap / 2"
    by simp
  have "tiles (rat_of_int start + of_int overlap / 2) [] (of_int start + of_int overlap / 2)"
    by simp
  from outer_loop_tiles[OF _ _ le this, of "chunk - overlap" "segment - overlap"] assms(1,2)
  show ?thesis by (simp add: omicron_output_segments_body_def Let_def)
qed

lemma body_degenerate:
  assumes "end' - start \<le> overlap"
  shows "omicron_output_segments_body (start, end', chunk, segment, overlap) = Some []"
proof -
  have "rat_of_int (end' - start) \<le> rat_of_int overlap"
    using assms by (simp only: of_int_le_iff)
  then have "\<not> rat_of_int start + of_int overlap / 2 < of_int end' - of_int overlap / 2"
    by simp
  then show ?thesis by (simp add: omicron_output_segments_body_def Let_def outer_stop)
qed

subsection \<open>Truncated segment lists\<close>

lemma trunc_map:
  assumes "\<forall>s \<in> set segs. fst s \<le> snd s"
  shows "map as_rat (map (\<lambda>s. Segment (py_int (fst s)) (py_int (snd s))) segs)
         = map (\<lambda>s. (of_int (py_int (fst s)), of_int (py_int (snd s)))) segs"
  using assms by (induction segs) (simp_all add: as_rat_def py_int_mono)

lemma trunc_rat_mono: "x \<le> y \<Longrightarrow> rat_of_int (py_int x) \<le> rat_of_int (py_int y)"
  by (simp add: py_int_mono)

lemma trunc_sorted:
  "sorted_by_start segs \<Longrightarrow>
   sorted_by_start (map (\<lambda>s. (rat_of_int (py_int (fst s)), rat_of_int (py_int (snd s)))) segs)"
  unfolding sorted_by_start_def
  by (induction segs) (auto simp: py_int_mono)

lemma trunc_disjoint:
  assumes "\<forall>s \<in> set segs. fst s \<le> snd s"
  shows "sorted_by_start segs \<Longrightarrow> pairwise_disjoint segs \<Longrightarrow>
   pairwise_disjoint (map (\<lambda>s. (rat_of_int (py_int (fst s)), rat_of_int (py_int (snd s)))) segs)"
  using assms
proof (induction segs)
  case Nil
  then show ?case by simp
next
  case (Cons s xs)
  let ?g = "\<lambda>x. rat_of_int (py_int x)"
  have tl: "pairwise_disjoint (map (\<lambda>s. (?g (fst s), ?g (snd s))) xs)"
    using Cons by (simp add: sorted_by_start_def)
  have "span (?g (fst s), ?g (snd s)) \<inter> span (?g (fst r), ?g (snd r)) = {}" if r: "r \<in> set xs" for r
  proof -
    from Cons.prems(1) r have sr: "fst s \<le> fst r" by (auto simp: sorted_by_start_def)
    from Cons.prems(2) r have "span s \<inter> span r = {}" by simp
    then have "min (snd s) (snd r) \<le> max (fst s) (fst r)" by (simp add: span_disjoint_iff)
    with sr have "snd s \<le> fst r \<or> snd r \<le> fst r" by (auto simp: min_def max_def split: if_splits)
    then have "?g (snd s) \<le> ?g (fst r) \<or> ?g (snd r) \<le> ?g (fst r)"
      using trunc_rat_mono by blast
    then show ?thesis
      by (auto simp: span_disjoint_iff min_le_iff_disj le_max_iff_disj)
  qed
  with tl show ?case by simp
qed

lemma tiling_0_10_4_2_1: "omicron_output_segments 0 10 4 2 1 = Some [(0, 3), (3, 6), (6, 9)]"
  by code_simp

subsection \<open>Decimal numerals\<close>

lemma of_char_digit_char: "d < 10 \<Longrightarrow> of_char (digit_char d) = 48 + d"
  by (simp add: digit_char_def)

lemma digit_val_digit_char [simp]: "d < 10 \<Longrightarrow> digit_val (digit_char d) = d"
  by (simp add: digit_val_def of_char_digit_char)

lemma is_digit_digit_char: "d < 10 \<Longrightarrow> is_digit (digit_char d)"
  by (simp add: is_digit_def of_char_digit_char)

lemma is_digit_neq:
  assumes "is_digit c"
  shows "c \<noteq> CHR '' ''" "c \<noteq> CHR ''-''" "c \<noteq> newline"
  using assms by (auto simp: is_digit_def newline_def)

lemma str_nat_digits: "c \<in> set (str_nat n) \<Longrightarrow> is_digit c"
proof (induction n rule: str_nat.induct)
  case (1 n)
  show ?case
  proof (cases "n < 10")
    case True
    with "1.prems" show ?thesis by (auto simp: str_nat.simps[of n] is_digit_digit_char)
  next
    case False
    with "1.prems" have "c \<in> set (str_nat (n div 10)) \<or> c = digit_char (n mod 10)"
      by (auto simp: str_nat.simps[of n])
    then show ?thesis
    proof
      assume "c \<in> set (str_nat (n div 10))"
      with "1.IH" False show ?thesis by simp
    next
      assume "c = digit_char (n mod 10)"
      then show ?thesis by (simp add: is_digit_digit_char)
    qed
  qed
qed

lemma str_nat_nonempty: "str_nat n \<noteq> []"
  by (subst str_nat.simps) simp

lemma val_nat_snoc: "val_nat (ds @ [c]) = 10 * val_nat ds + digit_val c"
  by (simp add: val_nat_def)

lemma val_nat_str_nat: "val_nat (str_nat n) = n"
proof (induction n rule: str_nat.induct)
  case (1 n)
  show ?case
  proof (cases "n < 10")
    case True
    then show ?thesis by (simp add: str_nat.simps[of n] val_nat_def)
  next
    case False
    with "1.IH" have "val_nat (str_nat (n div 10)) = n div 10" by simp
    with False show ?thesis by (simp add: str_nat.simps[of n] val_nat_snoc)
  qed
qed

lemma format_d_chars:
  "c \<in> set (format_d x) \<Longrightarrow> c \<noteq> CHR '' '' \<and> c \<noteq> newline"
proof -
  assume c: "c \<in> set (format_d x)"
  have dig: "c \<noteq> CHR '' '' \<and> c \<noteq> newline" if "is_digit c"
    using that is_digit_neq by blast
  have minus: "CHR ''-'' \<noteq> CHR '' ''" "CHR ''-'' \<noteq> newline" by (simp_all add: newline_def)
  from c have "c = CHR ''-'' \<or> is_digit c"
    by (auto simp: format_d_def Let_def split: if_splits dest: str_nat_digits)
  then show ?thesis using dig minus by auto
qed

lemma val_int_format_d: "val_int (format_d x) = py_int x"
proof (cases "py_int x < 0")
  case True
  then show ?thesis by (simp add: format_d_def val_int_def val_nat_str_nat)
next
  case False
  obtain c ds where s: "str_nat (nat (py_int x)) = c # ds"
    using str_nat_nonempty by (cases "str_nat (nat (py_int x))") auto
  then have "is_digit c" using str_nat_digits[of c "nat (py_int x)"] by simp
  then have "c \<noteq> CHR ''-''" by (rule is_digit_neq(2))
  with False s val_nat_str_nat[of "nat (py_int x)"] show ?thesis
    by (simp add: format_d_def val_int_def)
qed

subsection \<open>Lines and columns\<close>

lemma line_values_format_seg:
  "line_values (format_seg seg) = (py_int (fst seg), py_int (snd seg))"
proof -
  have a: "\<forall>c \<in> set (format_d (fst seg)). c \<noteq> CHR '' ''"
    using format_d_chars by blast
  have 1: "takeWhile (\<lambda>c. c \<noteq> CHR '' '') (format_seg seg) = format_d (fst seg)"
    using a by (simp add: format_seg_def takeWhile_append2 takeWhile_append1)
  have 2: "dropWhile (\<lambda>c. c \<noteq> CHR '' '') (format_seg seg) = CHR '' '' # format_d (snd seg)"
    using a by (simp add: format_seg_def dropWhile_append2)
  show ?thesis by (simp add: line_values_def 1 2 val_int_format_d)
qed

lemma file_lines_line:
  assumes "\<forall>c \<in> set l. c \<noteq> newline"
  shows "file_lines (l @ newline # rest) = l # file_lines rest"
proof -
  have 1: "takeWhile (\<lambda>c. c \<noteq> newline) (l @ newline # rest) = l"
    using assms by (simp add: takeWhile_append2)
  have 2: "dropWhile (\<lambda>c. c \<noteq> newline) (l @ newline # rest) = newline # rest"
    using assms by (simp add: dropWhile_append2)
  obtain c cs where "l @ newline # rest = c # cs" by (cases "l @ newline # rest") auto
  then have "file_lines (l @ newline # rest)
     = takeWhile (\<lambda>c. c \<noteq> newline) (l @ newline # rest)
         # file_lines (drop 1 (dropWhile (\<lambda>c. c \<noteq> newline) (l @ newline # rest)))"
    by simp
  then show ?thesis by (simp add: 1 2)
qed

lemma format_seg_no_newline: "\<forall>c \<in> set (format_seg seg). c \<noteq> newline"
  using format_d_chars by (auto simp: format_seg_def newline_def)

lemma write_segments_concat:
  "foldl (\<lambda>fp seg. print_to fp (format_seg seg)) acc segs
     = acc @ concat (map (\<lambda>seg. format_seg seg @ [newline]) segs)"
  by (induction segs arbitrary: acc) (simp_all add: print_to_def)

lemma file_lines_written:
  "file_lines (concat (map (\<lambda>seg. format_seg seg @ [newline]) segs)) = map format_seg segs"
  by (induction segs) (simp_all add: file_lines_line format_seg_no_newline)

subsection \<open>Scanning for the cluster identifier\<close>

lemma match_here_Some:
  assumes "match_here s = Some g"
  shows "\<exists>n post. s = n @ submitted_marker @ g @ post
           \<and> n \<noteq> [] \<and> list_all is_digit n \<and> g \<noteq> [] \<and> list_all is_digit g
           \<and> (post = [] \<or> \<not> is_digit (hd post))"
proof -
  let ?n = "takeWhile is_digit s" and ?r = "dropWhile is_digit s"
  let ?r' = "drop (length submitted_marker) ?r"
  from assms have n: "?n \<noteq> []" and p: "prefix submitted_marker ?r"
    and g: "g = takeWhile is_digit ?r'" "g \<noteq> []"
    by (auto simp: match_here_def Let_def split: if_splits)
  from p have r: "?r = submitted_marker @ ?r'" by (auto simp: prefix_def)
  have "s = ?n @ ?r" by simp
  also have "\<dots> = ?n @ submitted_marker @ g @ dropWhile is_digit ?r'"
    using r g(1) by simp
  finally have s: "s = ?n @ submitted_marker @ g @ dropWhile is_digit ?r'" .
  have dn: "list_all is_digit ?n" by (simp add: list_all_iff) (meson set_takeWhileD)
  have dg: "list_all is_digit g" unfolding g(1) by (simp add: list_all_iff) (meson set_takeWhileD)
  have post: "dropWhile is_digit ?r' = [] \<or> \<not> is_digit (hd (dropWhile is_digit ?r'))"
    using hd_dropWhile by blast
  from s n dn g(2) dg post show ?thesis by blast
qed

lemma search_submitted_Some:
  "search_submitted s = Some g \<Longrightarrow>
   \<exists>pre n post. s = pre @ n @ submitted_marker @ g @ post
      \<and> n \<noteq> [] \<and> list_all is_digit n \<and> g \<noteq> [] \<and> list_all is_digit g
      \<and> (post = [] \<or> \<not> is_digit (hd post))"
proof (induction s)
  case Nil
  then show ?case by simp
next
  case (Cons c cs)
  show ?case
  proof (cases "match_here (c # cs)")
    case (Some g')
    with Cons.prems have "match_here (c # cs) = Some g" by simp
    from match_here_Some[OF this] obtain n post where
      "c # cs = [] @ n @ submitted_marker @ g @ post"
      "n \<noteq> []" "list_all is_digit n" "g \<noteq> []" "list_all is_digit g"
      "post = [] \<or> \<not> is_digit (hd post)"
      by auto
    then show ?thesis by blast
  next
    case None
    with Cons.prems have "search_submitted cs = Some g" by simp
    from Cons.IH[OF this] obtain pre n post where
      "cs = pre @ n @ submitted_marker @ g @ post"
      "n \<noteq> []" "list_all is_digit n" "g \<noteq> []" "list_all is_digit g"
      "post = [] \<or> \<not> is_digit (hd post)"
      by auto
    then have "c # cs = (c # pre) @ n @ submitted_marker @ g @ post" by simp
    with \<open>n \<noteq> []\<close> \<open>list_all is_digit n\<close> \<open>g \<noteq> []\<close> \<open>list_all is_digit g\<close>
      \<open>post = [] \<or> \<not> is_digit (hd post)\<close>
    show ?thesis by blast
  qed
qed

lemma marker_starts_with_space: "submitted_marker = CHR '' '' # tl submitted_marker"
  by (simp add: submitted_marker_def)

lemma takeWhile_digits_marker:
  "list_all is_digit n \<Longrightarrow> takeWhile is_digit (n @ submitted_marker @ rest) = n"
proof -
  assume n: "list_all is_digit n"
  have "\<not> is_digit (CHR '' '')" by (simp add: is_digit_def)
  then have "takeWhile is_digit (submitted_marker @ rest) = []"
    by (subst marker_starts_with_space) simp
  with n show ?thesis by (simp add: list_all_iff takeWhile_append2)
qed

lemma dropWhile_digits_marker:
  "list_all is_digit n \<Longrightarrow> dropWhile is_digit (n @ submitted_marker @ rest) = submitted_marker @ rest"
proof -
  assume n: "list_all is_digit n"
  have "\<not> is_digit (CHR '' '')" by (simp add: is_digit_def)
  then have "dropWhile is_digit (submitted_marker @ rest) = submitted_marker @ rest"
    by (subst (1 2) marker_starts_with_space) simp
  with n show ?thesis by (simp add: list_all_iff dropWhile_append2)
qed

lemma match_here_complete:
  assumes "n \<noteq> []" "list_all is_digit n" "c \<noteq> []" "list_all is_digit c"
  shows "match_here (n @ submitted_marker @ c @ post) \<noteq> None"
proof -
  obtain d ds where c: "c = d # ds" using assms(3) by (cases c) auto
  with assms(4) have "is_digit d" by simp
  then have "takeWhile is_digit (c @ post) \<noteq> []" by (simp add: c)
  with assms(1) show ?thesis
    by (simp add: match_here_def Let_def takeWhile_digits_marker[OF assms(2)]
        dropWhile_digits_marker[OF assms(2)])
qed

lemma search_submitted_suffix:
  "search_submitted s \<noteq> None \<Longrightarrow> search_submitted (pre @ s) \<noteq> None"
  by (induction pre) (auto split: option.splits)

lemma match_here_search: "match_here s \<noteq> None \<Longrightarrow> search_submitted s \<noteq> None"
proof (cases s)
  case Nil
  moreover assume "match_here s \<noteq> None"
  ultimately show ?thesis by (simp add: match_here_def)
next
  case (Cons c cs)
  moreover assume "match_here s \<noteq> None"
  ultimately obtain g where "match_here (c # cs) = Some g" by auto
  then show ?thesis by (simp add: Cons)
qed

lemma has_submitted_pattern_iff: "has_submitted_pattern out \<longleftrightarrow> search_submitted out \<noteq> None"
proof
  assume "has_submitted_pattern out"
  then obtain pre n c post where o: "out = pre @ n @ submitted_marker @ c @ post"
    and d: "n \<noteq> []" "list_all is_digit n" "c \<noteq> []" "list_all is_digit c"
    by (auto simp: has_submitted_pattern_def)
  from match_here_complete[OF d] have "search_submitted (n @ submitted_marker @ c @ post) \<noteq> None"
    by (rule match_here_search)
  then show "search_submitted out \<noteq> None" unfolding o by (rule search_submitted_suffix)
next
  assume "search_submitted out \<noteq> None"
  then obtain g where "search_submitted out = Some g" by auto
  from search_submitted_Some[OF this] show "has_submitted_pattern out"
    unfolding has_submitted_pattern_def by blast
qed

subsection \<open>Lines of a text\<close>

lemma split_nl_nonempty [simp]: "split_nl s \<noteq> []"
  by (induction s) (auto split: list.splits)

lemma join_nl_Cons_Cons: "join_nl ((c # l) # ls) = c # join_nl (l # ls)"
  by (cases ls) simp_all

lemma join_nl_Nil_Cons: "ls \<noteq> [] \<Longrightarrow> join_nl ([] # ls) = newline # join_nl ls"
  by (cases ls) simp_all

lemma join_split_nl: "join_nl (split_nl s) = s"
proof (induction s)
  case Nil
  then show ?case by simp
next
  case (Cons c cs)
  obtain l ls where ls: "split_nl cs = l # ls"
    using split_nl_nonempty[of cs] by (cases "split_nl cs") auto
  show ?case
  proof (cases "c = newline")
    case True
    then show ?thesis using Cons.IH by (simp add: join_nl_Nil_Cons)
  next
    case False
    then show ?thesis using Cons.IH by (simp add: ls join_nl_Cons_Cons)
  qed
qed

lemma split_nl_single_line: "l \<in> set (split_nl s) \<Longrightarrow> single_line l"
proof (induction s arbitrary: l)
  case Nil
  then show ?case by (simp add: single_line_def)
next
  case (Cons c cs)
  obtain k ks where ks: "split_nl cs = k # ks"
    using split_nl_nonempty[of cs] by (cases "split_nl cs") auto
  show ?case
  proof (cases "c = newline")
    case True
    with Cons show ?thesis by (auto simp: single_line_def)
  next
    case False
    with Cons.prems have "l = c # k \<or> l \<in> set ks" by (simp add: ks)
    then show ?thesis
    proof
      assume "l = c # k"
      moreover have "single_line k" using Cons.IH[of k] by (simp add: ks)
      ultimately show ?thesis using False by (auto simp: single_line_def)
    next
      assume "l \<in> set ks"
      then show ?thesis using Cons.IH[of l] by (simp add: ks)
    qed
  qed
qed

lemma split_nl_line: "single_line l \<Longrightarrow> split_nl l = [l]"
  by (induction l) (auto simp: single_line_def)

lemma split_nl_append_newline:
  "single_line l \<Longrightarrow> split_nl (l @ newline # rest) = l # split_nl rest"
  by (induction l) (auto simp: single_line_def)

lemma split_join_nl:
  "ls \<noteq> [] \<Longrightarrow> \<forall>l \<in> set ls. single_line l \<Longrightarrow> split_nl (join_nl ls) = ls"
proof (induction ls rule: join_nl.induct)
  case 1
  then show ?case by simp
next
  case (2 l)
  then show ?case by (simp add: split_nl_line)
next
  case (3 l l' ls)
  then show ?case by (simp add: split_nl_append_newline)
qed

subsection \<open>The lines the patches leave alone\<close>

lemma arguments_not_requirements: "is_arguments l \<Longrightarrow> \<not> is_requirements l"
  by (auto simp: is_arguments_def is_requirements_def arguments_prefix_def
      requirements_prefix_def prefix_def)

lemma is_arguments_patched:
  "is_arguments (arguments_prefix @ rest)"
  by (simp add: is_arguments_def)

lemma continued_patched:
  assumes "is_arguments l" "\<not> continued c"
  shows "continued (arguments_prefix @ '' '' @ c @ drop (length arguments_prefix) l) = continued l"
proof -
  from assms(1) obtain v where l: "l = arguments_prefix @ v"
    by (auto simp: is_arguments_def prefix_def)
  have q: "dquote \<noteq> backslash" by (simp add: dquote_def backslash_def)
  have sp: "CHR '' '' \<noteq> backslash" by (simp add: backslash_def)
  show ?thesis
  proof (cases "v = []")
    case True
    have "\<not> continued l" using q by (simp add: l True continued_def arguments_prefix_def)
    moreover have "\<not> continued (arguments_prefix @ '' '' @ c)"
      using assms(2) sp by (cases "c = []") (simp_all add: continued_def)
    ultimately show ?thesis by (simp add: l True)
  next
    case False
    then show ?thesis by (simp add: l continued_def)
  qed
qed

lemma other_lines_patch_arguments:
  assumes "\<not> continued c"
  shows "other_lines b (patch_arguments c ls) = other_lines b ls"
proof (induction ls arbitrary: b)
  case Nil
  then show ?case by (simp add: patch_arguments_def)
next
  case (Cons l ls)
  have tl: "\<And>b. other_lines b (map (\<lambda>l. if is_arguments l
               then arguments_prefix @ '' '' @ c @ drop (length arguments_prefix) l
               else l) ls) = other_lines b ls"
    using Cons.IH by (simp add: patch_arguments_def)
  show ?case
  proof (cases "is_arguments l")
    case True
    let ?p = "arguments_prefix @ '' '' @ c @ drop (length arguments_prefix) l"
    have 1: "\<not> is_requirements l" "\<not> is_requirements ?p"
      using True is_arguments_patched arguments_not_requirements by blast+
    have 2: "is_arguments ?p" by (rule is_arguments_patched)
    have 3: "continued ?p = continued l" using True assms by (rule continued_patched)
    show ?thesis using True 1 2 3 tl by (simp add: patch_arguments_def)
  next
    case False
    then show ?thesis using tl by (simp add: patch_arguments_def)
  qed
qed

lemma is_requirements_append: "is_requirements l \<Longrightarrow> is_requirements (l @ m)"
  by (simp add: is_requirements_def)

lemma continued_marker: "continued (l @ continuation_marker)"
  by (simp add: continued_def continuation_marker_def)

lemma not_continued_has_singularity: "\<not> continued has_singularity_line"
  by (simp add: continued_def has_singularity_line_def backslash_def)

lemma other_lines_extend_requirements:
  "b \<or> is_requirements l \<Longrightarrow>
   other_lines b (extend_requirements (l # ls)) = other_lines b (l # ls)"
proof (induction ls arbitrary: b l)
  case Nil
  then show ?case
    by (auto simp: is_requirements_append continued_marker not_continued_has_singularity)
next
  case (Cons l' ls)
  show ?case
  proof (cases "continued l")
    case True
    have "other_lines True (extend_requirements (l' # ls)) = other_lines True (l' # ls)"
      by (rule Cons.IH) simp
    with True Cons.prems show ?thesis by auto
  next
    case False
    with Cons.prems show ?thesis
      by (auto simp: is_requirements_append continued_marker not_continued_has_singularity)
  qed
qed

lemma other_lines_patch_requirements:
  "patch_requirements ls = Some ls' \<Longrightarrow> other_lines False ls' = other_lines False ls"
proof (induction ls arbitrary: ls')
  case Nil
  then show ?case by simp
next
  case (Cons l ls)
  show ?case
  proof (cases "is_requirements l")
    case True
    with Cons.prems have "ls' = extend_requirements (l # ls)" by simp
    then show ?thesis using True other_lines_extend_requirements[of False l ls] by simp
  next
    case False
    with Cons.prems obtain ls'' where p: "patch_requirements ls = Some ls''" and l: "ls' = l # ls''"
      by auto
    from Cons.IH[OF p] show ?thesis using False by (simp add: l)
  qed
qed

lemma other_lines_add_singularity:
  "other_lines False (add_singularity image_path ls) = other_lines False ls"
proof -
  have 1: "\<not> is_requirements (singularity_prefix @ image_path)"
    by (auto simp: is_requirements_def singularity_prefix_def requirements_prefix_def prefix_def)
  have 2: "is_singularity_image (singularity_prefix @ image_path)"
    by (simp add: is_singularity_image_def)
  have 3: "is_requirements (requirements_prefix @ ''HasSingularity'')"
    by (simp add: is_requirements_def)
  have 4: "\<not> continued (requirements_prefix @ ''HasSingularity'')"
    by (simp add: continued_def backslash_def)
  show ?thesis
    using 1 2 3 4
    by (auto simp: add_singularity_def other_lines_patch_requirements split: option.splits)
qed

subsection \<open>The patches keep the lines single\<close>

lemma single_line_append [simp]: "single_line (a @ b) \<longleftrightarrow> single_line a \<and> single_line b"
  by (auto simp: single_line_def)

lemma single_line_fixed [simp]:
  "single_line arguments_prefix" "single_line requirements_prefix"
  "single_line singularity_prefix" "single_line continuation_marker"
  "single_line has_singularity_line" "single_line ''HasSingularity''" "single_line '' ''"
  by (simp_all add: single_line_def arguments_prefix_def requirements_prefix_def
      singularity_prefix_def continuation_marker_def has_singularity_line_def newline_def
      dquote_def backslash_def)

lemma single_line_Cons: "single_line (c # l) \<longleftrightarrow> c \<noteq> newline \<and> single_line l"
  by (auto simp: single_line_def)

lemma space_not_newline [simp]: "CHR '' '' \<noteq> newline"
  by (simp add: newline_def)

lemma single_line_drop: "single_line l \<Longrightarrow> single_line (drop n l)"
  by (auto simp: single_line_def dest: in_set_dropD)

lemma single_patch_arguments:
  "single_line c \<Longrightarrow> \<forall>l \<in> set ls. single_line l \<Longrightarrow>
   \<forall>l \<in> set (patch_arguments c ls). single_line l"
  by (auto simp: patch_arguments_def single_line_drop single_line_Cons)

lemma single_extend_requirements:
  "\<forall>l \<in> set ls. single_line l \<Longrightarrow> \<forall>l \<in> set (extend_requirements ls). single_line l"
  by (induction ls rule: extend_requirements.induct) auto

lemma single_patch_requirements:
  "patch_requirements ls = Some ls' \<Longrightarrow> \<forall>l \<in> set ls. single_line l \<Longrightarrow>
   \<forall>l \<in> set ls'. single_line l"
proof (induction ls arbitrary: ls')
  case Nil
  then show ?case by simp
next
  case (Cons l ls)
  show ?case
  proof (cases "is_requirements l")
    case True
    with Cons.prems(1) have "ls' = extend_requirements (l # ls)" by simp
    then show ?thesis using single_extend_requirements[OF Cons.prems(2)] by simp
  next
    case False
    with Cons.prems(1) obtain ls'' where p: "patch_requirements ls = Some ls''" and l: "ls' = l # ls''"
      by auto
    from Cons.IH[OF p] Cons.prems(2) show ?thesis by (simp add: l)
  qed
qed

lemma single_add_singularity:
  "single_line i \<Longrightarrow> \<forall>l \<in> set ls. single_line l \<Longrightarrow>
   \<forall>l \<in> set (add_singularity i ls). single_line l"
  using single_patch_requirements
  by (auto simp: add_singularity_def split: option.splits)

section \<open>Claims about the segment tiling\<close>








text \<open>
  Claim C4.  For a wrapped function that returns a segment list sorted by start and
  pairwise disjoint, \<open>integer_segments\<close> returns a list of the same length, in the same
  order, whose endpoints are the truncations of the original ones, and that list is again
  sorted by start and pairwise disjoint.  (A glue segment has its lower endpoint first;
  this is the second hypothesis.)
\<close>

theorem integer_segments_preserves:
  assumes "f args = Some segs"
    and "\<forall>s \<in> set segs. fst s \<le> snd s"
    and "sorted_by_start segs" and "pairwise_disjoint segs"
  shows "\<exists>out. integer_segments f args = Some out
           \<and> length out = length segs
           \<and> (\<forall>i < length segs. out ! i = (py_int (fst (segs ! i)), py_int (snd (segs ! i))))
           \<and> sorted_by_start (map as_rat out)
           \<and> pairwise_disjoint (map as_rat out)"
proof -
  let ?out = "map (\<lambda>s. Segment (py_int (fst s)) (py_int (snd s))) segs"
  have 1: "integer_segments f args = Some ?out"
    using assms(1) by (simp add: integer_segments_def)
  have 2: "\<forall>i < length segs. ?out ! i = (py_int (fst (segs ! i)), py_int (snd (segs ! i)))"
    using assms(2) by (simp add: py_int_mono)
  have 3: "sorted_by_start (map as_rat ?out)"
    unfolding trunc_map[OF assms(2)] using assms(3) by (rule trunc_sorted)
  have 4: "pairwise_disjoint (map as_rat ?out)"
    unfolding trunc_map[OF assms(2)] using assms(2,3,4) by (intro trunc_disjoint)
  from 1 2 3 4 show ?thesis by simp
qed

theorem integer_segments_preserves_witness:
  "(\<lambda>u::unit. Some ([(1/2, 3/2), (3/2, 7/2)] :: rat segment list)) () = Some ([(1/2, 3/2), (3/2, 7/2)] :: rat segment list)
   \<and> list_all (\<lambda>s. fst s \<le> snd s) ([(1/2, 3/2), (3/2, 7/2)] :: rat segment list)
   \<and> sorted_by_start ([(1/2, 3/2), (3/2, 7/2)] :: rat segment list)
   \<and> pairwise_disjoint ([(1/2, 3/2), (3/2, 7/2)] :: rat segment list)
   \<and> (\<exists>out. integer_segments (\<lambda>u::unit. Some ([(1/2, 3/2), (3/2, 7/2)] :: rat segment list)) () = Some out
           \<and> length out = length ([(1/2, 3/2), (3/2, 7/2)] :: rat segment list)
           \<and> (\<forall>i < length ([(1/2, 3/2), (3/2, 7/2)] :: rat segment list). out ! i = (py_int (fst (([(1/2, 3/2), (3/2, 7/2)] :: rat segment list) ! i)), py_int (snd (([(1/2, 3/2), (3/2, 7/2)] :: rat segment list) ! i))))
           \<and> sorted_by_start (map as_rat out)
           \<and> pairwise_disjoint (map as_rat out))"
proof -
  have h1: "(\<lambda>u::unit. Some ([(1/2, 3/2), (3/2, 7/2)] :: rat segment list)) () = Some ([(1/2, 3/2), (3/2, 7/2)] :: rat segment list)"
    by simp
  have h2: "\<forall>s \<in> set ([(1/2, 3/2), (3/2, 7/2)] :: rat segment list). fst s \<le> snd s" by simp
  have h3: "sorted_by_start ([(1/2, 3/2), (3/2, 7/2)] :: rat segment list)" by (simp add: sorted_by_start_def)
  have h4: "pairwise_disjoint ([(1/2, 3/2), (3/2, 7/2)] :: rat segment list)" by (simp add: span_def)
  from integer_segments_preserves[of "\<lambda>u::unit. Some ([(1/2, 3/2), (3/2, 7/2)] :: rat segment list)" "()" "([(1/2, 3/2), (3/2, 7/2)] :: rat segment list)", OF h1 h2 h3 h4] h1 h2 h3 h4
  show ?thesis unfolding list_all_iff by blast
qed

text \<open>
  Claim C10.  \<open>integer_segments\<close> maps the returned segments one to one and drops none:
  a segment \<open>[a, b)\<close> with \<open>a < b\<close> that lies within one integer cell \<open>[n, n + 1)\<close>
  comes back, at the same position, as the zero-length segment \<open>(n, n)\<close>.  The witness is
  the segment \<open>[1.2, 1.8)\<close>.
\<close>

theorem integer_segments_zero_length:
  assumes "0 \<le> n" "of_int n \<le> a" "a < b" "b < of_int n + 1"
    and "f args = Some (pre @ [Segment a b] @ post)"
  shows "\<exists>out. integer_segments f args = Some out
           \<and> length out = length (pre @ [Segment a b] @ post)
           \<and> out ! length pre = (n, n)"
proof -
  have a: "py_int a = n" using assms(1-4) by (simp add: py_int_def floor_unique)
  have b: "py_int b = n" using assms(1-4) by (simp add: py_int_def floor_unique)
  have "Segment a b = (a, b)" using assms(3) by simp
  with a b assms(5) show ?thesis
    by (simp add: integer_segments_def nth_append)
qed

theorem integer_segments_zero_length_witness:
  "(0::int) \<le> 1 \<and> of_int 1 \<le> (6/5 :: rat) \<and> (6/5 :: rat) < 9/5 \<and> (9/5 :: rat) < of_int 1 + 1
   \<and> (\<lambda>u::unit. Some ([] @ [Segment (6/5) (9/5)] @ [])) () = Some ([] @ [Segment (6/5 :: rat) (9/5)] @ [])
   \<and> (\<exists>out. integer_segments (\<lambda>u::unit. Some ([] @ [Segment (6/5) (9/5)] @ [])) () = Some out
           \<and> length out = length ([] @ [Segment (6/5 :: rat) (9/5)] @ [])
           \<and> out ! length ([] :: rat segment list) = (1, 1))"
  using integer_segments_zero_length[of 1 "6/5" "9/5" "\<lambda>u::unit. Some ([] @ [Segment (6/5) (9/5)] @ [])" "()" "[]" "[]"]
  by simp

section \<open>Claims about \<open>write_segments\<close>\<close>

text \<open>
  Claim C3, as amended.  \<open>write_segments\<close> writes one line \<open><start> <end>\<close> per
  segment, in order, and the two numbers on the line are the given endpoints truncated
  toward zero by the conversion \<open>%d\<close>; when the endpoints given are integers, the
  numbers written are exactly those endpoints.
\<close>

theorem write_segments_values:
  "file_lines (write_segments segmentlist) = map format_seg segmentlist
   \<and> written_values (write_segments segmentlist)
       = map (\<lambda>seg. (py_int (fst seg), py_int (snd seg))) segmentlist
   \<and> ((\<forall>seg \<in> set segmentlist. fst seg \<in> \<int> \<and> snd seg \<in> \<int>) \<longrightarrow>
        map as_rat (written_values (write_segments segmentlist)) = segmentlist)"
proof -
  have w: "write_segments segmentlist
             = concat (map (\<lambda>seg. format_seg seg @ [newline]) segmentlist)"
    by (simp add: write_segments_def write_segments_concat)
  have l: "file_lines (write_segments segmentlist) = map format_seg segmentlist"
    by (simp add: w file_lines_written)
  have v: "written_values (write_segments segmentlist)
             = map (\<lambda>seg. (py_int (fst seg), py_int (snd seg))) segmentlist"
    by (simp add: written_values_def l line_values_format_seg)
  have "map as_rat (written_values (write_segments segmentlist)) = segmentlist"
    if "\<forall>seg \<in> set segmentlist. fst seg \<in> \<int> \<and> snd seg \<in> \<int>"
  proof -
    have "as_rat (py_int (fst seg), py_int (snd seg)) = seg" if "seg \<in> set segmentlist" for seg
    proof -
      from that \<open>\<forall>seg \<in> set segmentlist. fst seg \<in> \<int> \<and> snd seg \<in> \<int>\<close>
      obtain a b where "fst seg = of_int a" "snd seg = of_int b"
        by (auto elim!: Ints_cases)
      then show ?thesis by (simp add: as_rat_def prod_eq_iff)
    qed
    then show ?thesis by (simp add: v map_idI)
  qed
  with l v show ?thesis by blast
qed

theorem write_segments_values_witness:
  "file_lines (write_segments [(3, 5), (7/2, 9)]) = map format_seg [(3, 5), (7/2, 9)]
   \<and> written_values (write_segments [(3, 5), (7/2, 9)]) = [(3, 5), (3, 9)]
   \<and> map as_rat (written_values (write_segments [(3, 5)])) = [(3, 5)]"
proof -
  have t: "py_int (7/2) = 3" "py_int 3 = 3" "py_int 5 = 5" "py_int 9 = 9" by code_simp+
  show ?thesis
    using write_segments_values[of "[(3, 5), (7/2, 9)]"] write_segments_values[of "[(3, 5)]"]
    by (simp add: t as_rat_def)
qed

lemma write_segments_fractional: "write_segments [(3/2, 5/2)] = ''1 2'' @ [newline]"
  by code_simp

lemma written_values_fractional: "written_values (write_segments [(3/2, 5/2)]) = [(1, 2)]"
  by code_simp

text \<open>
  The claim as first stated fails for a segment with fractional endpoints: for
  \<open>[1.5, 2.5)\<close> the line written is \<open>1 2\<close>, and the numbers on it are not the
  endpoints given.
\<close>

theorem write_segments_truncates_counterexample:
  "write_segments [(3/2, 5/2)] = ''1 2'' @ [newline]
   \<and> map as_rat (written_values (write_segments [(3/2, 5/2)])) \<noteq> [(3/2, 5/2)]"
  unfolding written_values_fractional
  by (simp add: write_segments_fractional as_rat_def)

section \<open>Claims about the batch-job management\<close>

text \<open>
  Claim C6.  When the output of the submission executable contains the pattern
  \<open><N> job(s) submitted to cluster <ClusterID>\<close>, \<open>submit\<close> returns the number that the
  digits of a ClusterID of such an occurrence denote (for the output
  \<open>1 job(s) submitted to cluster 12345\<close> it returns \<open>12345\<close>); when the pattern is
  absent it fails with a ParseError whose message starts with
  \<open>Failed to extract DAG cluster ID\<close>.
\<close>

theorem submit_cluster_id:
  "(has_submitted_pattern (executable (extra_args @ [dag_path])) \<longrightarrow>
      (\<exists>pre n c post.
          executable (extra_args @ [dag_path]) = pre @ n @ submitted_marker @ c @ post
        \<and> n \<noteq> [] \<and> list_all is_digit n \<and> c \<noteq> [] \<and> list_all is_digit c
        \<and> (post = [] \<or> \<not> is_digit (hd post))
        \<and> submit executable detail dag_path extra_args = Inr (val_nat c)))
   \<and> (\<not> has_submitted_pattern (executable (extra_args @ [dag_path])) \<longrightarrow>
      (\<exists>msg. submit executable detail dag_path extra_args = Inl (ParseError msg)
        \<and> prefix ''Failed to extract DAG cluster ID'' msg))"
proof (intro conjI impI)
  let ?out = "executable (extra_args @ [dag_path])"
  assume "has_submitted_pattern ?out"
  then obtain g where g: "search_submitted ?out = Some g"
    by (auto simp: has_submitted_pattern_iff)
  then have "submit executable detail dag_path extra_args = Inr (val_nat g)"
    by (simp add: submit_def)
  with search_submitted_Some[OF g]
  show "\<exists>pre n c post. ?out = pre @ n @ submitted_marker @ c @ post
        \<and> n \<noteq> [] \<and> list_all is_digit n \<and> c \<noteq> [] \<and> list_all is_digit c
        \<and> (post = [] \<or> \<not> is_digit (hd post))
        \<and> submit executable detail dag_path extra_args = Inr (val_nat c)"
    by blast
next
  let ?out = "executable (extra_args @ [dag_path])"
  assume "\<not> has_submitted_pattern ?out"
  then have "search_submitted ?out = None" by (simp add: has_submitted_pattern_iff)
  then show "\<exists>msg. submit executable detail dag_path extra_args = Inl (ParseError msg)
        \<and> prefix ''Failed to extract DAG cluster ID'' msg"
    by (simp add: submit_def)
qed

lemma test_submit_dag:
  "submit (\<lambda>argv. ''1 job(s) submitted to cluster 12345'') detail ''test.dag'' [] = Inr 12345"
  by code_simp

lemma search_something_else: "search_submitted ''Something else'' = None"
  by code_simp

lemma search_test_output: "search_submitted ''1 job(s) submitted to cluster 12345'' \<noteq> None"
  by code_simp

theorem submit_cluster_id_witness:
  "has_submitted_pattern ''1 job(s) submitted to cluster 12345''
   \<and> submit (\<lambda>argv. ''1 job(s) submitted to cluster 12345'') (\<lambda>out. out) ''test.dag'' [] = Inr 12345
   \<and> (\<exists>pre n c post.
          ''1 job(s) submitted to cluster 12345'' = pre @ n @ submitted_marker @ c @ post
        \<and> n \<noteq> [] \<and> list_all is_digit n \<and> c \<noteq> [] \<and> list_all is_digit c
        \<and> (post = [] \<or> \<not> is_digit (hd post))
        \<and> submit (\<lambda>argv. ''1 job(s) submitted to cluster 12345'') (\<lambda>out. out) ''test.dag'' []
            = Inr (val_nat c))
   \<and> \<not> has_submitted_pattern ''Something else''
   \<and> (\<exists>msg. submit (\<lambda>argv. ''Something else'') (\<lambda>out. out) ''test.dag'' [] = Inl (ParseError msg)
        \<and> prefix ''Failed to extract DAG cluster ID'' msg)"
proof -
  have a: "has_submitted_pattern ''1 job(s) submitted to cluster 12345''"
    unfolding has_submitted_pattern_iff by (rule search_test_output)
  have b: "\<not> has_submitted_pattern ''Something else''"
    unfolding has_submitted_pattern_iff by (simp only: search_something_else) simp
  from a b test_submit_dag[of "\<lambda>out. out"]
    submit_cluster_id[of "\<lambda>argv. ''1 job(s) submitted to cluster 12345''" "[]" "''test.dag''" "\<lambda>out. out"]
    submit_cluster_id[of "\<lambda>argv. ''Something else''" "[]" "''test.dag''" "\<lambda>out. out"]
  show ?thesis by simp
qed

text \<open>
  Claim C7.  When exactly one job of the scheduler matches the filters, \<open>find_job\<close>
  returns that job; when none matches it fails with a NotFoundError whose message starts
  with \<open>No jobs found\<close>, and when two or more match, with an AmbiguousResultError whose
  message starts with \<open>Multiple jobs found\<close>.
\<close>

theorem find_job_unique:
  "(length (filter (job_matches filters) schedd) = 1 \<longrightarrow>
      (\<exists>job. find_job detail schedd filters = Inr job
         \<and> filter (job_matches filters) schedd = [job]
         \<and> job \<in> set schedd \<and> job_matches filters job))
   \<and> (length (filter (job_matches filters) schedd) = 0 \<longrightarrow>
      (\<exists>msg. find_job detail schedd filters = Inl (NotFoundError msg)
         \<and> prefix ''No jobs found'' msg))
   \<and> (2 \<le> length (filter (job_matches filters) schedd) \<longrightarrow>
      (\<exists>msg. find_job detail schedd filters = Inl (AmbiguousResultError msg)
         \<and> prefix ''Multiple jobs found'' msg))"
proof (intro conjI impI)
  assume "length (filter (job_matches filters) schedd) = 1"
  then obtain job where j: "filter (job_matches filters) schedd = [job]"
    by (cases "filter (job_matches filters) schedd") auto
  then have "job \<in> set (filter (job_matches filters) schedd)" by simp
  then have "job \<in> set schedd" "job_matches filters job" by simp_all
  with j show "\<exists>job. find_job detail schedd filters = Inr job
         \<and> filter (job_matches filters) schedd = [job]
         \<and> job \<in> set schedd \<and> job_matches filters job"
    by (simp add: find_job_def find_jobs_def)
next
  assume "length (filter (job_matches filters) schedd) = 0"
  then show "\<exists>msg. find_job detail schedd filters = Inl (NotFoundError msg)
         \<and> prefix ''No jobs found'' msg"
    by (simp add: find_job_def find_jobs_def)
next
  assume "2 \<le> length (filter (job_matches filters) schedd)"
  then obtain a b rest where "filter (job_matches filters) schedd = a # b # rest"
    by (cases "filter (job_matches filters) schedd" rule: remdups_adj.cases) auto
  then show "\<exists>msg. find_job detail schedd filters = Inl (AmbiguousResultError msg)
         \<and> prefix ''Multiple jobs found'' msg"
    by (simp add: find_job_def find_jobs_def)
qed

text \<open>The job table of \<open>test_find_job\<close>: two jobs, with ClusterId 1 and 2.\<close>

theorem find_job_unique_witness:
  "length (filter (job_matches [(''ClusterId'', 1::int)])
             [[''ClusterId'' \<mapsto> 1], [''ClusterId'' \<mapsto> 2]]) = 1
   \<and> find_job (\<lambda>fs. []) [[''ClusterId'' \<mapsto> 1], [''ClusterId'' \<mapsto> 2]] [(''ClusterId'', 1::int)]
       = Inr [''ClusterId'' \<mapsto> 1]
   \<and> length (filter (job_matches [(''ClusterId'', 3::int)])
             [[''ClusterId'' \<mapsto> 1], [''ClusterId'' \<mapsto> 2]]) = 0
   \<and> (\<exists>msg. find_job (\<lambda>fs. []) [[''ClusterId'' \<mapsto> 1], [''ClusterId'' \<mapsto> 2]] [(''ClusterId'', 3::int)]
               = Inl (NotFoundError msg) \<and> prefix ''No jobs found'' msg)
   \<and> 2 \<le> length (filter (job_matches ([] :: int filters))
             [[''ClusterId'' \<mapsto> 1], [''ClusterId'' \<mapsto> 2]])
   \<and> (\<exists>msg. find_job (\<lambda>fs. []) [[''ClusterId'' \<mapsto> 1], [''ClusterId'' \<mapsto> 2]] ([] :: int filters)
               = Inl (AmbiguousResultError msg) \<and> prefix ''Multiple jobs found'' msg)"
proof -
  let ?schedd = "[[''ClusterId'' \<mapsto> 1::int], [''ClusterId'' \<mapsto> 2]]"
  have 1: "filter (job_matches [(''ClusterId'', 1::int)]) ?schedd = [[''ClusterId'' \<mapsto> 1]]"
    by (simp add: job_matches_def)
  have 0: "filter (job_matches [(''ClusterId'', 3::int)]) ?schedd = []"
    by (simp add: job_matches_def)
  have 2: "filter (job_matches ([] :: int filters)) ?schedd = ?schedd"
    by (simp add: job_matches_def)
  from find_job_unique[of "[(''ClusterId'', 1::int)]" ?schedd "\<lambda>fs. []"]
    find_job_unique[of "[(''ClusterId'', 3::int)]" ?schedd "\<lambda>fs. []"]
    find_job_unique[of "[] :: int filters" ?schedd "\<lambda>fs. []"]
  show ?thesis
    by (simp only: 0 1 2) simp
qed

text \<open>
  The checks of \<open>test_write_sub_file\<close>, on the descriptors of the test.
\<close>

lemma test_write_sub_file_unchanged: "write_sub_file None None sub_no_reqs = sub_no_reqs"
  by code_simp

lemma test_write_sub_file_command:
  "suffix ([newline] @ ''arguments = '' @ [dquote] @ '' new argumentssome command''
             @ [dquote, newline])
     (write_sub_file (Some ''new arguments'') None sub_no_reqs)"
  by code_simp

lemma test_write_sub_file_no_reqs:
  "prefix (''+SingularityImage = image.sif'' @ [newline] @ ''Requirements = HasSingularity'')
     (write_sub_file (Some ''new arguments'') (Some ''image.sif'') sub_no_reqs)"
  by code_simp

lemma test_write_sub_file_one_req:
  "prefix (''+SingularityImage = image.sif'' @ [newline])
     (write_sub_file (Some ''new arguments'') (Some ''image.sif'') sub_one_req)
   \<and> sublist (''Requirements = TARGET.UidDomain == '' @ [dquote] @ ''cs.wisc.edu'' @ [dquote]
               @ '' && '' @ [backslash, newline]
               @ ''               HasSingularity'' @ [newline])
     (write_sub_file (Some ''new arguments'') (Some ''image.sif'') sub_one_req)"
  by code_simp

lemma test_write_sub_file_multi_reqs:
  "prefix (''+SingularityImage = image.sif'' @ [newline])
     (write_sub_file (Some ''new arguments'') (Some ''image.sif'') sub_multi_reqs)
   \<and> sublist (''Requirements = TARGET.UidDomain == '' @ [dquote] @ ''cs.wisc.edu'' @ [dquote]
               @ '' && '' @ [backslash, newline]
               @ ''               TARGET.FileSystemDomain == '' @ [dquote] @ ''cs.wisc.edu''
               @ [dquote] @ '' && '' @ [backslash, newline]
               @ ''               HasSingularity'' @ [newline])
     (write_sub_file (Some ''new arguments'') (Some ''image.sif'') sub_multi_reqs)"
  by code_simp


lemma sub_no_reqs_lines:
  "split_nl sub_no_reqs = [[], ''universe = vanilla'', ''executable = /path/to/omicron'',
     arguments_prefix @ ''some command'' @ [dquote], []]"
  by code_simp



lemma sub_multi_reqs_other_lines:
  "other_lines False (split_nl sub_multi_reqs)
     = [[], ''universe = vanilla'', ''executable = /path/to/omicron'', [], []]"
  by code_simp


end
